theory Spec2Isabelle
  imports Complex_Main
begin

section \<open>Text and the Unicode character database\<close>

text \<open>
  A Python \<open>str\<close> is a sequence of Unicode code points; a code point is a natural number
  and a text is a list of them. ASCII literals are written as HOL strings and converted
  with \<open>ustr\<close>.
\<close>

type_synonym cp = nat
type_synonym ustr = "cp list"

definition ustr :: "string \<Rightarrow> ustr" where
  "ustr s = map of_char s"

text \<open>
  \<open>unicodedata\<close>, \<open>str.lower\<close>, \<open>str.isspace\<close> and the classes \<open>\w\<close>, \<open>\s\<close>, \<open>\d\<close> of
  \<open>re\<close> consult the Unicode character database, which is not part of the repository. Its
  behaviour outside ASCII is a parameter of the model; inside ASCII every function is
  written out.
\<close>

record ucd =
  u_nfkc :: "ustr \<Rightarrow> ustr"
  u_alnum :: "cp \<Rightarrow> bool"
  u_space :: "cp \<Rightarrow> bool"
  u_decimal :: "cp \<Rightarrow> bool"
  u_lower :: "ustr \<Rightarrow> ustr"

definition is_ascii :: "ustr \<Rightarrow> bool" where
  "is_ascii s = list_all (\<lambda>c. c < 128) s"

definition LF :: cp where "LF = 10"
definition CR :: cp where "CR = 13"
definition SPACE :: cp where "SPACE = 32"
definition HYPHEN :: cp where "HYPHEN = 45"

text \<open>\<open>unicodedata.normalize("NFKC", s)\<close>: ASCII text is already in NFKC.\<close>

definition nfkc :: "ucd \<Rightarrow> ustr \<Rightarrow> ustr" where
  "nfkc U s = (if is_ascii s then s else u_nfkc U s)"

text \<open>\<open>str.isspace\<close> on one character, which is also the class \<open>\s\<close>.\<close>

definition isspace :: "ucd \<Rightarrow> cp \<Rightarrow> bool" where
  "isspace U c = (if c < 128 then (9 \<le> c \<and> c \<le> 13) \<or> (28 \<le> c \<and> c \<le> 32) else u_space U c)"

text \<open>The class \<open>\d\<close>: decimal digits.\<close>

definition isdigit :: "ucd \<Rightarrow> cp \<Rightarrow> bool" where
  "isdigit U c = (if c < 128 then 48 \<le> c \<and> c \<le> 57 else u_decimal U c)"

text \<open>The class \<open>\w\<close>: alphanumeric characters and the underscore.\<close>

definition isword :: "ucd \<Rightarrow> cp \<Rightarrow> bool" where
  "isword U c = (if c < 128
     then (48 \<le> c \<and> c \<le> 57) \<or> (65 \<le> c \<and> c \<le> 90) \<or> c = 95 \<or> (97 \<le> c \<and> c \<le> 122)
     else u_alnum U c)"

text \<open>\<open>str.lower\<close>.\<close>

definition ascii_lower :: "cp \<Rightarrow> cp" where
  "ascii_lower c = (if 65 \<le> c \<and> c \<le> 90 then c + 32 else c)"

definition lower :: "ucd \<Rightarrow> ustr \<Rightarrow> ustr" where
  "lower U s = (if is_ascii s then map ascii_lower s else u_lower U s)"

text \<open>\<open>str.strip()\<close> and \<open>str.rstrip(chars)\<close>.\<close>

definition rstrip_chars :: "cp list \<Rightarrow> ustr \<Rightarrow> ustr" where
  "rstrip_chars cs s = rev (dropWhile (\<lambda>c. c \<in> set cs) (rev s))"

definition strip :: "ucd \<Rightarrow> ustr \<Rightarrow> ustr" where
  "strip U s = rev (dropWhile (isspace U) (rev (dropWhile (isspace U) s)))"

text \<open>
  The database restricted to ASCII, for evaluating the model on ASCII text (where no
  function above consults the parameter).
\<close>

definition ascii_ucd :: ucd where
  "ascii_ucd = \<lparr>u_nfkc = (\<lambda>s. s), u_alnum = (\<lambda>c. False), u_space = (\<lambda>c. False),
     u_decimal = (\<lambda>c. False), u_lower = (\<lambda>s. s)\<rparr>"

section \<open>Regular expressions\<close>

text \<open>
  The patterns of the program are sequences of three kinds of items: one character of a
  class, an optional character of a class (\<open>x?\<close>) and a greedy repetition of a class with a
  minimum count (\<open>x*\<close>, \<open>x+\<close>, \<open>x{6,}\<close>). \<open>rmatch\<close> is the backtracking matcher of \<open>re\<close>
  anchored at the start of the text: greedy items first try to consume a character and
  give it back when the rest of the pattern fails. It returns the length of the match.
\<close>

datatype rx_item = One "cp \<Rightarrow> bool" | Opt "cp \<Rightarrow> bool" | Many nat "cp \<Rightarrow> bool"

type_synonym rx = "rx_item list"

function rmatch :: "rx \<Rightarrow> ustr \<Rightarrow> nat option" where
  "rmatch [] s = Some 0"
| "rmatch (One p # r) [] = None"
| "rmatch (One p # r) (c # cs) = (if p c then map_option Suc (rmatch r cs) else None)"
| "rmatch (Opt p # r) [] = rmatch r []"
| "rmatch (Opt p # r) (c # cs) =
     (if p c then (case rmatch r cs of Some n \<Rightarrow> Some (Suc n) | None \<Rightarrow> rmatch r (c # cs))
      else rmatch r (c # cs))"
| "rmatch (Many k p # r) [] = (if k = 0 then rmatch r [] else None)"
| "rmatch (Many k p # r) (c # cs) =
     (if p c then
        (case rmatch (Many (k - 1) p # r) cs of
           Some n \<Rightarrow> Some (Suc n)
         | None \<Rightarrow> if k = 0 then rmatch r (c # cs) else None)
      else if k = 0 then rmatch r (c # cs) else None)"
  by pat_completeness auto
termination
  by (relation "measure (\<lambda>(r, s). length r + length s)") auto

lemma rmatch_le: "rmatch r s = Some n \<Longrightarrow> n \<le> length s"
proof (induction r s arbitrary: n rule: rmatch.induct)
  case (7 k p r c cs)
  then show ?case
    by (auto split: if_splits option.splits)
qed (auto split: if_splits option.splits)

text \<open>
  \<open>re.sub(pattern, repl, s)\<close>: the leftmost match is replaced and the scan resumes
  behind it; where nothing matches, one character is copied. The replacement is a function
  of the matched text.
\<close>

function re_sub :: "rx \<Rightarrow> (ustr \<Rightarrow> ustr) \<Rightarrow> ustr \<Rightarrow> ustr" where
  "re_sub r repl s =
     (case rmatch r s of
        Some n \<Rightarrow>
          (if n = 0 then repl [] @ (case s of [] \<Rightarrow> [] | c # cs \<Rightarrow> c # re_sub r repl cs)
           else repl (take n s) @ re_sub r repl (drop n s))
      | None \<Rightarrow> (case s of [] \<Rightarrow> [] | c # cs \<Rightarrow> c # re_sub r repl cs))"
  by pat_completeness auto
termination
  by (relation "measure (\<lambda>(r, repl, s). length s)") (auto dest: rmatch_le)

declare re_sub.simps [simp del]

text \<open>\<open>re.findall(pattern, s)\<close> for a pattern without groups: the list of matches.\<close>

function re_findall :: "rx \<Rightarrow> ustr \<Rightarrow> ustr list" where
  "re_findall r s =
     (case rmatch r s of
        Some n \<Rightarrow>
          (if n = 0 then [] # (case s of [] \<Rightarrow> [] | c # cs \<Rightarrow> re_findall r cs)
           else take n s # re_findall r (drop n s))
      | None \<Rightarrow> (case s of [] \<Rightarrow> [] | c # cs \<Rightarrow> re_findall r cs))"
  by pat_completeness auto
termination
  by (relation "measure (\<lambda>(r, s). length s)") (auto dest: rmatch_le)

declare re_findall.simps [simp del]

text \<open>\<open>re.search(pattern, s)\<close> as a truth value: some position has a match.\<close>

fun re_search :: "rx \<Rightarrow> ustr \<Rightarrow> bool" where
  "re_search r [] = (rmatch r [] \<noteq> None)"
| "re_search r (c # cs) = (rmatch r (c # cs) \<noteq> None \<or> re_search r cs)"

definition lit :: "char \<Rightarrow> rx_item" where
  "lit ch = One (\<lambda>c. c = of_char ch)"

section \<open>String operations of Python\<close>

text \<open>\<open>s[a:b]\<close>: indices are clamped to the text, negative ones count from its end.\<close>

definition slice :: "ustr \<Rightarrow> int \<Rightarrow> int \<Rightarrow> ustr" where
  "slice s a b =
     (let n = int (length s);
          a' = (if a < 0 then max 0 (a + n) else min a n);
          b' = (if b < 0 then max 0 (b + n) else min b n)
      in take (nat (b' - a')) (drop (nat a') s))"

text \<open>\<open>s.count(c, 0, hi)\<close>, \<open>s.rfind(c, 0, hi)\<close> and \<open>s.find(c, lo)\<close> for one character \<open>c\<close>
  and indices that are not negative; \<open>rfind\<close> and \<open>find\<close> return \<open>-1\<close> when there is none.\<close>

primrec str_count :: "ustr \<Rightarrow> cp \<Rightarrow> nat \<Rightarrow> nat" where
  "str_count s c 0 = 0"
| "str_count s c (Suc k) = (if k < length s \<and> s ! k = c then 1 else 0) + str_count s c k"

primrec str_rfind :: "ustr \<Rightarrow> cp \<Rightarrow> nat \<Rightarrow> int" where
  "str_rfind s c 0 = -1"
| "str_rfind s c (Suc k) = (if k < length s \<and> s ! k = c then int k else str_rfind s c k)"

fun find_from :: "ustr \<Rightarrow> cp \<Rightarrow> nat \<Rightarrow> int" where
  "find_from [] c i = -1"
| "find_from (x # xs) c i = (if x = c then int i else find_from xs c (Suc i))"

definition str_find :: "ustr \<Rightarrow> cp \<Rightarrow> nat \<Rightarrow> int" where
  "str_find s c lo = find_from (drop lo s) c lo"

text \<open>\<open>s.replace(c, "")\<close> for one character \<open>c\<close>.\<close>

definition remove_char :: "cp \<Rightarrow> ustr \<Rightarrow> ustr" where
  "remove_char c s = filter (\<lambda>x. x \<noteq> c) s"

text \<open>\<open>s.translate(str.maketrans(table))\<close>: each character with an entry is replaced by
  the entry's string.\<close>

definition translate :: "(cp \<times> string) list \<Rightarrow> ustr \<Rightarrow> ustr" where
  "translate table s =
     concat (map (\<lambda>c. case map_of table c of None \<Rightarrow> [c] | Some t \<Rightarrow> ustr t) s)"

text \<open>
  \<open>s.splitlines()\<close>: the text is cut at every line boundary (\<open>\n\<close>, \<open>\r\<close>, \<open>\r\n\<close>,
  \<open>\v\<close>, \<open>\f\<close>, the separators \<open>\x1c\<close>, \<open>\x1d\<close>, \<open>\x1e\<close>, \<open>\x85\<close>, U+2028 and
  U+2029); the boundaries are dropped and a text that ends with one has no empty last
  line.
\<close>

definition is_linebreak :: "cp \<Rightarrow> bool" where
  "is_linebreak c = (c = 10 \<or> c = 11 \<or> c = 12 \<or> c = 13 \<or> c = 28 \<or> c = 29 \<or> c = 30
     \<or> c = 133 \<or> c = 8232 \<or> c = 8233)"

fun splitlines_from :: "ustr \<Rightarrow> ustr \<Rightarrow> ustr list" where
  "splitlines_from cur [] = (if cur = [] then [] else [cur])"
| "splitlines_from cur (c # cs) =
     (if is_linebreak c then
        (case cs of
           d # ds \<Rightarrow> if c = CR \<and> d = LF then cur # splitlines_from [] ds
                     else cur # splitlines_from [] cs
         | [] \<Rightarrow> [cur])
      else splitlines_from (cur @ [c]) cs)"

definition splitlines :: "ustr \<Rightarrow> ustr list" where
  "splitlines s = splitlines_from [] s"

text \<open>\<open>"\n".join(lines)\<close>.\<close>

fun join_nl :: "ustr list \<Rightarrow> ustr" where
  "join_nl [] = []"
| "join_nl [l] = l"
| "join_nl (l # ls) = l @ LF # join_nl ls"

section \<open>Configuration\<close>

definition ERROR_WEIGHT :: real where
  "ERROR_WEIGHT = 5.0"

definition IGNORE_RULES :: "string set" where
  "IGNORE_RULES = {''WHITESPACE_RULE'', ''COMMA_PARENTHESIS_WHITESPACE'',
     ''PUNCTUATION_PARAGRAPH_END'', ''UPPERCASE_SENTENCE_START'', ''HYPHENATION''}"

definition LIG_MAP :: "(cp \<times> string) list" where
  "LIG_MAP = [(0xFB00, ''ff''), (0xFB01, ''fi''), (0xFB02, ''fl''),
     (0xFB03, ''ffi''), (0xFB04, ''ffl''),
     (0xF001, ''fi''), (0xF002, ''fl'')]"

definition UNWRAP_LINEBREAK_HYPHENS :: bool where
  "UNWRAP_LINEBREAK_HYPHENS = True"

section \<open>Cleaning\<close>

text \<open>
  The pattern \<open>(\w)-\s*\n(\w)\<close> with the replacement \<open>\1-\2\<close>. The two groups are the
  first and the last character of the match.
\<close>

definition unwrap_rx :: "ucd \<Rightarrow> rx" where
  "unwrap_rx U = [One (isword U), lit CHR ''-'', Many 0 (isspace U), One (\<lambda>c. c = LF),
     One (isword U)]"

definition unwrap_repl :: "ustr \<Rightarrow> ustr" where
  "unwrap_repl m = [hd m, HYPHEN, last m]"

definition normalize_text :: "ucd \<Rightarrow> ustr \<Rightarrow> ustr" where
  "normalize_text U s0 =
     (let s = nfkc U s0;
          s = translate LIG_MAP s;
          s = remove_char 0xFEFF (remove_char 0x200B (remove_char 0xAD s))
      in if UNWRAP_LINEBREAK_HYPHENS then re_sub (unwrap_rx U) unwrap_repl s else s)"

text \<open>The patterns \<open>\S+@\S+\<close>, \<open>https?://\S+\<close>, \<open>\+?\d[\d\-\s\(\)]{6,}\d\<close> and \<open>[a-z]\<close>.\<close>

definition nonspace :: "ucd \<Rightarrow> cp \<Rightarrow> bool" where
  "nonspace U c = (\<not> isspace U c)"

definition email_rx :: "ucd \<Rightarrow> rx" where
  "email_rx U = [Many 1 (nonspace U), lit CHR ''@'', Many 1 (nonspace U)]"

definition url_rx :: "ucd \<Rightarrow> rx" where
  "url_rx U = [lit CHR ''h'', lit CHR ''t'', lit CHR ''t'', lit CHR ''p'',
     Opt (\<lambda>c. c = of_char CHR ''s''), lit CHR '':'', lit CHR ''/'', lit CHR ''/'',
     Many 1 (nonspace U)]"

definition phone_inner :: "ucd \<Rightarrow> cp \<Rightarrow> bool" where
  "phone_inner U c = (isdigit U c \<or> c = of_char CHR ''-'' \<or> isspace U c
     \<or> c = of_char CHR ''('' \<or> c = of_char CHR '')'')"

definition phone_rx :: "ucd \<Rightarrow> rx" where
  "phone_rx U = [Opt (\<lambda>c. c = of_char CHR ''+''), One (isdigit U), Many 6 (phone_inner U),
     One (isdigit U)]"

definition lowercase_rx :: rx where
  "lowercase_rx = [One (\<lambda>c. of_char CHR ''a'' \<le> c \<and> c \<le> of_char CHR ''z'')]"

definition blank :: "ustr \<Rightarrow> ustr" where
  "blank m = [SPACE]"

text \<open>The text after the three substitutions of \<open>strip_noise\<close>, before it is split.\<close>

definition substituted :: "ucd \<Rightarrow> ustr \<Rightarrow> ustr" where
  "substituted U text0 =
     (let text = normalize_text U text0;
          text = re_sub (email_rx U) blank text;
          text = re_sub (url_rx U) blank text
      in re_sub (phone_rx U) blank text)"

definition strip_noise :: "ucd \<Rightarrow> ustr \<Rightarrow> ustr" where
  "strip_noise U text0 =
     (let lines = splitlines (substituted U text0)
      in join_nl (filter (re_search lowercase_rx) lines))"

section \<open>Pretty printing\<close>

text \<open>
  A match of the checker. The program reads every attribute with \<open>getattr\<close> and a
  default, so every field is optional. Offsets and lengths are not negative.
\<close>

record lt_match =
  m_offset :: "nat option"
  m_errorLength :: "nat option"
  m_ruleId :: "string option"
  m_context :: "ustr option"
  m_message :: "ustr option"
  m_replacements :: "ustr list option"

definition getattr :: "'a option \<Rightarrow> 'a \<Rightarrow> 'a" where
  "getattr field dflt = (case field of Some v \<Rightarrow> v | None \<Rightarrow> dflt)"

definition idx_to_line_col :: "ustr \<Rightarrow> nat \<Rightarrow> int \<times> int" where
  "idx_to_line_col text idx =
     (let line = int (str_count text LF idx) + 1;
          last_nl = str_rfind text LF idx;
          col = int idx - (last_nl + 1) + 1
      in (line, col))"

text \<open>One block of the report; the message is kept as it is, the wrapping to the
  terminal width is left to the output.\<close>

record issue_block =
  b_line :: int
  b_col :: int
  b_rule :: string
  b_line_text :: ustr
  b_caret :: ustr
  b_message :: ustr
  b_suggestions :: "ustr list"

definition CARET :: cp where "CARET = of_char CHR ''^''"

text \<open>The bounds of the source line around an offset, as \<open>pretty_print_errors\<close> computes
  them.\<close>

definition line_start_of :: "ustr \<Rightarrow> nat \<Rightarrow> int" where
  "line_start_of text offset = str_rfind text LF offset + 1"

definition line_end_of :: "ustr \<Rightarrow> nat \<Rightarrow> int" where
  "line_end_of text offset =
     (let line_end = str_find text LF offset
      in if line_end = -1 then int (length text) else line_end)"

definition render_issue :: "ustr \<Rightarrow> lt_match \<Rightarrow> issue_block" where
  "render_issue text m =
     (let offset = getattr (m_offset m) 0;
          err_len = (let l = getattr (m_errorLength m) 1 in if l = 0 then 1 else l);
          rule_id = getattr (m_ruleId m) ''<rule>'';
          msg = getattr (m_message m) [];
          sugg_list = getattr (m_replacements m) [];
          (line, col) = idx_to_line_col text offset;
          line_start = line_start_of text offset;
          line_end = line_end_of text offset;
          line_text = rstrip_chars [CR, LF] (slice text line_start line_end);
          caret = replicate (nat (int offset - line_start)) SPACE
                  @ replicate (max 1 err_len) CARET
      in \<lparr>b_line = line, b_col = col, b_rule = rule_id, b_line_text = line_text,
          b_caret = caret, b_message = msg, b_suggestions = take 5 sugg_list\<rparr>)"

definition pretty_print_errors :: "(ustr \<times> lt_match) list \<Rightarrow> ustr \<Rightarrow> issue_block list" where
  "pretty_print_errors errors text = map (\<lambda>(snippet, m). render_issue text m) errors"

section \<open>Floating point\<close>

text \<open>
  A Python \<open>float\<close> is an IEEE-754 binary64 number: every arithmetic operation returns
  the exact result rounded to the nearest number with a significand of 53 bits, ties to
  the even significand. A float is modelled by the real number it denotes. The range of
  the exponent is not modelled: the quotient of two list lengths and the products and
  differences computed from it here are far from overflow and from the subnormal numbers.
\<close>

definition round_even :: "real \<Rightarrow> int" where
  "round_even y =
     (let f = \<lfloor>y\<rfloor>
      in if y - of_int f < 1 / 2 then f
         else if 1 / 2 < y - of_int f then f + 1
         else if even f then f else f + 1)"

definition rnd :: "real \<Rightarrow> real" where
  "rnd x =
     (if x = 0 then 0
      else (let e = \<lfloor>log 2 \<bar>x\<bar>\<rfloor> - 52
            in of_int (round_even (x / 2 powr of_int e)) * 2 powr of_int e))"

text \<open>\<open>a / b\<close> on two integers (true division, correctly rounded), and \<open>x * y\<close> and
  \<open>x - y\<close> on floats.\<close>

definition fdiv :: "nat \<Rightarrow> nat \<Rightarrow> real" where
  "fdiv a b = rnd (real a / real b)"

definition fmul :: "real \<Rightarrow> real \<Rightarrow> real" where
  "fmul x y = rnd (x * y)"

definition fsub :: "real \<Rightarrow> real \<Rightarrow> real" where
  "fsub x y = rnd (x - y)"

section \<open>Scoring\<close>

text \<open>The snippet of a match, as the loop of \<open>compute_language_score\<close> extracts it.\<close>

definition snippet_of :: "ucd \<Rightarrow> ustr \<Rightarrow> lt_match \<Rightarrow> ustr" where
  "snippet_of U text m =
     (let offset = getattr (m_offset m) 0;
          err_len = getattr (m_errorLength m) 0
      in if err_len \<noteq> 0 then strip U (slice text (int offset) (int (offset + err_len)))
         else (let c = strip U (getattr (m_context m) [])
               in if c \<noteq> [] then c else strip U (slice text (int offset) (int (offset + 40)))))"

fun collect_errors :: "ucd \<Rightarrow> ustr \<Rightarrow> ustr set \<Rightarrow> lt_match list \<Rightarrow> (ustr \<times> lt_match) list" where
  "collect_errors U text allowed_lower [] = []"
| "collect_errors U text allowed_lower (m # ms) =
     (if (case m_ruleId m of Some r \<Rightarrow> r \<in> IGNORE_RULES | None \<Rightarrow> False)
      then collect_errors U text allowed_lower ms
      else (let snippet = snippet_of U text m
            in if lower U snippet \<in> allowed_lower then collect_errors U text allowed_lower ms
               else (snippet, m) # collect_errors U text allowed_lower ms))"

definition word_rx :: "ucd \<Rightarrow> rx" where
  "word_rx U = [Many 1 (isword U)]"

record report =
  r_errors :: "(ustr \<times> lt_match) list"
  r_wc :: nat
  r_err_per_100 :: real
  r_score :: real

text \<open>
  \<open>raw_matches\<close> is what the checker returned for the text. \<open>list.sort\<close> is stable.
  The error density and the score are floats, computed with the rounded operations.
\<close>

definition compute_language_score :: "ucd \<Rightarrow> ustr \<Rightarrow> ustr set \<Rightarrow> lt_match list \<Rightarrow> report" where
  "compute_language_score U text allowed_lower raw_matches =
     (let errors = collect_errors U text allowed_lower raw_matches;
          errors = sort_key (\<lambda>x. getattr (m_offset (snd x)) 0) errors;
          words = re_findall (word_rx U) text;
          wc = length words;
          err_per_100 = (if wc \<noteq> 0 then fmul (fdiv (length errors) wc) 100 else 0);
          score = max 0.0 (fsub 100.0 (fmul ERROR_WEIGHT err_per_100))
      in \<lparr>r_errors = errors, r_wc = wc, r_err_per_100 = err_per_100, r_score = score\<rparr>)"

section \<open>What the specification says, in its own words\<close>

text \<open>The number of maximal runs of word characters: the positions where a run starts.\<close>

definition spec_word_count :: "ucd \<Rightarrow> ustr \<Rightarrow> nat" where
  "spec_word_count U text =
     length (filter (\<lambda>i. isword U (text ! i) \<and> (i = 0 \<or> \<not> isword U (text ! (i - 1))))
       [0..<length text])"

text \<open>The index of the last newline before an offset, or \<open>-1\<close>.\<close>

definition spec_last_newline :: "ustr \<Rightarrow> nat \<Rightarrow> int" where
  "spec_last_newline text offset =
     (let N = {i. i < offset \<and> i < length text \<and> text ! i = LF}
      in if N = {} then -1 else int (Max N))"

text \<open>The offset by which the issues are ordered.\<close>

definition offset_of :: "ustr \<times> lt_match \<Rightarrow> nat" where
  "offset_of e = getattr (m_offset (snd e)) 0"

text \<open>The flagged snippet of a match.\<close>

definition spec_snippet :: "ustr \<Rightarrow> lt_match \<Rightarrow> ustr" where
  "spec_snippet text m =
     (let offset = getattr (m_offset m) 0;
          len = getattr (m_errorLength m) 0
      in if len > 0 then slice text (int offset) (int (offset + len))
         else (case m_context m of Some c \<Rightarrow> c
               | None \<Rightarrow> slice text (int offset) (int (offset + 40))))"

section \<open>Sample data\<close>

definition example_text :: ustr where
  "example_text = ustr ''abc'' @ [LF] @ ustr ''def'' @ [LF] @ ustr ''ghi''"

definition broken_twice :: ustr where
  "broken_twice = ustr ''a-'' @ [LF] @ ustr ''b-'' @ [LF] @ ustr ''c''"

definition plain_match :: "nat \<Rightarrow> nat \<Rightarrow> lt_match" where
  "plain_match off len = \<lparr>m_offset = Some off, m_errorLength = Some len,
     m_ruleId = Some ''MORFOLOGIK_RULE_EN_US'', m_context = None, m_message = None,
     m_replacements = None\<rparr>"

section \<open>Auxiliary functions of the proofs\<close>

text \<open>The number of runs of \<open>P\<close> that start in a text, given whether the character before
  the text satisfies \<open>P\<close>.\<close>

fun run_starts :: "(cp \<Rightarrow> bool) \<Rightarrow> bool \<Rightarrow> ustr \<Rightarrow> nat" where
  "run_starts P prev [] = 0"
| "run_starts P prev (c # cs) = (if P c \<and> \<not> prev then 1 else 0) + run_starts P (P c) cs"

text \<open>The least length of a match of a pattern.\<close>

fun item_min :: "rx_item \<Rightarrow> nat" where
  "item_min (One p) = 1"
| "item_min (Opt p) = 0"
| "item_min (Many k p) = k"

definition min_len :: "rx \<Rightarrow> nat" where
  "min_len r = sum_list (map item_min r)"

text \<open>The characters that the second and third step of \<open>normalize_text\<close> remove or
  replace.\<close>

definition residue :: "cp \<Rightarrow> bool" where
  "residue c = (map_of LIG_MAP c \<noteq> None \<or> c = 0xAD \<or> c = 0x200B \<or> c = 0xFEFF)"


section \<open>Evaluation on concrete texts\<close>

lemmas eval_defs = compute_language_score_def Let_def ERROR_WEIGHT_def plain_match_def
  snippet_of_def getattr_def slice_def strip_def isspace_def lower_def is_ascii_def
  ascii_lower_def ustr_def IGNORE_RULES_def word_rx_def isword_def re_findall.simps

lemmas render_defs = render_issue_def Let_def plain_match_def getattr_def idx_to_line_col_def
  line_start_of_def line_end_of_def str_find_def slice_def rstrip_chars_def ustr_def
  LF_def CR_def SPACE_def CARET_def

lemmas norm_defs = normalize_text_def nfkc_def is_ascii_def ustr_def translate_def LIG_MAP_def
  remove_char_def UNWRAP_LINEBREAK_HYPHENS_def unwrap_rx_def lit_def isword_def isspace_def
  LF_def HYPHEN_def unwrap_repl_def re_sub.simps

section \<open>Position mapping\<close>

lemma str_count_eq: "str_count s c k = length (filter (\<lambda>x. x = c) (take k s))"
proof (induction k)
  case 0
  show ?case by simp
next
  case (Suc k)
  show ?case
  proof (cases "k < length s")
    case True
    then show ?thesis using Suc by (simp add: take_Suc_conv_app_nth)
  next
    case False
    then show ?thesis using Suc by simp
  qed
qed

lemma str_rfind_spec: "str_rfind s c k =
  (let N = {i. i < k \<and> i < length s \<and> s ! i = c} in if N = {} then -1 else int (Max N))"
proof (induction k)
  case 0
  show ?case by simp
next
  case (Suc k)
  let ?N = "\<lambda>k. {i. i < k \<and> i < length s \<and> s ! i = c}"
  show ?case
  proof (cases "k < length s \<and> s ! k = c")
    case True
    have fin: "finite (?N (Suc k))" by simp
    have "k \<in> ?N (Suc k)" using True by simp
    moreover have "\<forall>i\<in>?N (Suc k). i \<le> k" by auto
    ultimately have "Max (?N (Suc k)) = k"
      using fin by (intro Max_eqI) auto
    moreover have "?N (Suc k) \<noteq> {}" using \<open>k \<in> ?N (Suc k)\<close> by blast
    ultimately show ?thesis using True by (simp add: Let_def)
  next
    case False
    then have eq: "?N (Suc k) = ?N k" by (auto simp: less_Suc_eq)
    have "str_rfind s c (Suc k) = str_rfind s c k" using False by auto
    also have "\<dots> = (let N = ?N k in if N = {} then -1 else int (Max N))" by (rule Suc)
    finally show ?thesis unfolding eq .
  qed
qed

text \<open>
  Claim C6. For a text and an offset that is a valid index into it, \<open>_idx_to_line_col\<close>
  returns the pair of the number of newlines in \<open>text[0:offset]\<close> plus one, and of the
  offset minus the index of the last newline before the offset (\<open>-1\<close> when there is
  none). In the text of three lines \<open>abc\<close>, \<open>def\<close>, \<open>ghi\<close>, offset 4 is line 2, column 1
  and offset 9 is line 3, column 2.
\<close>

theorem idx_to_line_col_spec:
  assumes "offset < length text"
  shows "idx_to_line_col text offset =
           (int (length (filter (\<lambda>c. c = LF) (take offset text))) + 1,
            int offset - spec_last_newline text offset)
         \<and> idx_to_line_col example_text 4 = (2, 1)
         \<and> idx_to_line_col example_text 9 = (3, 2)"
proof -
  have "idx_to_line_col text offset =
           (int (length (filter (\<lambda>c. c = LF) (take offset text))) + 1,
            int offset - spec_last_newline text offset)"
    by (simp add: idx_to_line_col_def str_count_eq str_rfind_spec spec_last_newline_def Let_def)
  moreover have "idx_to_line_col example_text 4 = (2, 1)"
    by (simp add: idx_to_line_col_def example_text_def ustr_def LF_def eval_nat_numeral)
  moreover have "idx_to_line_col example_text 9 = (3, 2)"
    by (simp add: idx_to_line_col_def example_text_def ustr_def LF_def eval_nat_numeral)
  ultimately show ?thesis by blast
qed

theorem idx_to_line_col_spec_witness:
  "4 < length example_text
   \<and> idx_to_line_col example_text 4 =
       (int (length (filter (\<lambda>c. c = LF) (take 4 example_text))) + 1,
        int 4 - spec_last_newline example_text 4)
   \<and> idx_to_line_col example_text 4 = (2, 1)
   \<and> idx_to_line_col example_text 9 = (3, 2)"
proof -
  have h: "4 < length example_text" by (simp add: example_text_def ustr_def)
  show ?thesis using h idx_to_line_col_spec [OF h] by blast
qed

section \<open>Word count and score\<close>

lemma rmatch_many0: "rmatch [Many 0 P] s = Some (length (takeWhile P s))"
  by (induction s) auto

lemma run_starts_skip: "run_starts P True s = run_starts P False (dropWhile P s)"
  by (induction s) auto

lemma findall_runs: "length (re_findall [Many 1 P] s) = run_starts P False s"
proof (induction s rule: length_induct)
  case (1 s)
  show ?case
  proof (cases s)
    case Nil
    then show ?thesis by (simp add: re_findall.simps)
  next
    case (Cons c cs)
    show ?thesis
    proof (cases "P c")
      case False
      have "re_findall [Many 1 P] s = re_findall [Many 1 P] cs"
        using Cons False by (subst re_findall.simps) (simp add: rmatch_many0)
      moreover have "length (re_findall [Many 1 P] cs) = run_starts P False cs"
        using 1 Cons by simp
      ultimately show ?thesis using Cons False by simp
    next
      case True
      let ?n = "length (takeWhile P s)"
      have m: "rmatch [Many 1 P] s = Some ?n" using Cons True by (simp add: rmatch_many0)
      have n0: "?n \<noteq> 0" using Cons True by simp
      have d: "drop ?n s = dropWhile P s" by (rule dropWhile_eq_drop [symmetric])
      have "re_findall [Many 1 P] s = take ?n s # re_findall [Many 1 P] (dropWhile P s)"
        using m n0 d by (subst re_findall.simps) simp
      moreover have "length (dropWhile P s) < length s"
        using Cons True by (simp add: length_dropWhile_le less_Suc_eq_le)
      then have "length (re_findall [Many 1 P] (dropWhile P s)) = run_starts P False (dropWhile P s)"
        using 1 by blast
      moreover have "run_starts P False s = Suc (run_starts P False (dropWhile P s))"
        using Cons True by (simp add: run_starts_skip)
      ultimately show ?thesis by simp
    qed
  qed
qed

lemma run_starts_index:
  "run_starts P prev s =
     length (filter (\<lambda>i. P (s ! i) \<and> (if i = 0 then \<not> prev else \<not> P (s ! (i - 1)))) [0..<length s])"
proof (induction s arbitrary: prev)
  case Nil
  show ?case by simp
next
  case (Cons c cs)
  have u: "[0..<length (c # cs)] = 0 # map Suc [0..<length cs]"
    by (simp add: upt_conv_Cons map_Suc_upt del: upt_Suc)
  have "length (filter (\<lambda>i. P ((c # cs) ! i) \<and> (if i = 0 then \<not> prev else \<not> P ((c # cs) ! (i - 1))))
            (map Suc [0..<length cs]))
        = length (filter (\<lambda>i. P (cs ! i) \<and> (if i = 0 then \<not> P c else \<not> P (cs ! (i - 1)))) [0..<length cs])"
    unfolding filter_map length_map o_def
    by (rule arg_cong [where f = length], rule filter_cong) (auto simp: nth_Cons')
  then show ?case unfolding u using Cons [of "P c"] by simp
qed

lemma word_count_spec: "length (re_findall (word_rx U) text) = spec_word_count U text"
proof -
  have "(\<lambda>i. isword U (text ! i) \<and> (if i = 0 then \<not> False else \<not> isword U (text ! (i - 1))))
      = (\<lambda>i. isword U (text ! i) \<and> (i = 0 \<or> \<not> isword U (text ! (i - 1))))"
    by auto
  then show ?thesis
    unfolding word_rx_def spec_word_count_def findall_runs run_starts_index by simp
qed

lemma rnd_eval:
  assumes "2 powr of_int k \<le> \<bar>x\<bar>" and "\<bar>x\<bar> < 2 powr of_int (k + 1)"
  shows "rnd x = of_int (round_even (x / 2 powr of_int (k - 52))) * 2 powr of_int (k - 52)"
proof -
  have pos: "0 < \<bar>x\<bar>" using assms(1) by (smt (verit) powr_gt_zero)
  have "of_int k \<le> log 2 \<bar>x\<bar>" using assms(1) pos by (simp add: le_log_iff)
  moreover have "log 2 \<bar>x\<bar> < of_int k + 1" using assms(2) pos by (simp add: log_less_iff)
  ultimately have "\<lfloor>log 2 \<bar>x\<bar>\<rfloor> = k" by (simp add: floor_unique)
  moreover have "x \<noteq> 0" using pos by auto
  ultimately show ?thesis by (simp add: rnd_def Let_def)
qed

lemma rnd_0: "rnd 0 = 0"
  by (simp add: rnd_def)

lemma rnd_100: "rnd 100 = 100"
  by (subst rnd_eval [where k = 6]) (simp_all add: round_even_def powr_minus)

lemma rnd_exact_values:
  "rnd (1 / 2) = 1 / 2" "rnd 50 = 50" "rnd 250 = 250" "rnd (- 150) = - 150"
     apply (subst rnd_eval [where k = "- 1"]; simp add: round_even_def powr_minus)
    apply (subst rnd_eval [where k = 5]; simp add: round_even_def powr_minus)
   apply (subst rnd_eval [where k = 7]; simp add: round_even_def powr_minus)
  apply (subst rnd_eval [where k = 7]; simp add: round_even_def powr_minus)
  done

text \<open>
  The rounding at work: 7 errors in 50 words give the density \<open>14.000000000000002\<close> and
  the score \<open>29.999999999999986\<close>, and 4 errors in 200 words give the density \<open>2.0\<close>.
\<close>

lemma binary64_examples:
  "fmul (fdiv 7 50) 100 = 14 + 1 / 2 ^ 49"
  "fsub 100 (fmul 5 (fmul (fdiv 7 50) 100)) = 30 - 1 / 2 ^ 46"
  "fmul (fdiv 4 200) 100 = 2"
proof -
  have a: "fdiv 7 50 = 5044031582654956 / 2 ^ 55"
    unfolding fdiv_def
    by (subst rnd_eval [where k = "- 3"]) (simp_all add: round_even_def powr_minus Let_def)
  have b: "fmul (5044031582654956 / 2 ^ 55) 100 = 7881299347898369 / 2 ^ 49"
    unfolding fmul_def
    by (subst rnd_eval [where k = 3]) (simp_all add: round_even_def powr_minus Let_def)
  have c: "fmul 5 (7881299347898369 / 2 ^ 49) = 4925812092436481 / 2 ^ 46"
    unfolding fmul_def
    by (subst rnd_eval [where k = 6]) (simp_all add: round_even_def powr_minus Let_def)
  have d: "fsub 100 (4925812092436481 / 2 ^ 46) = 8444249301319676 / 2 ^ 48"
    unfolding fsub_def
    by (subst rnd_eval [where k = 4]) (simp_all add: round_even_def powr_minus Let_def)
  show "fmul (fdiv 7 50) 100 = 14 + 1 / 2 ^ 49"
    unfolding a b by simp
  show "fsub 100 (fmul 5 (fmul (fdiv 7 50) 100)) = 30 - 1 / 2 ^ 46"
    unfolding a b c d by simp
  have e: "fdiv 4 200 = 5764607523034235 / 2 ^ 58"
    unfolding fdiv_def
    by (subst rnd_eval [where k = "- 6"]) (simp_all add: round_even_def powr_minus Let_def)
  have f: "fmul (5764607523034235 / 2 ^ 58) 100 = 2"
    unfolding fmul_def
    by (subst rnd_eval [where k = 1]) (simp_all add: round_even_def powr_minus Let_def)
  show "fmul (fdiv 4 200) 100 = 2"
    unfolding e f ..
qed

text \<open>
  Claim C1. For every cleaned text and every list of matches, the scorer computes the
  word count as the number of maximal runs of word characters (alphanumeric or
  underscore) of the text, the errors per 100 words as \<open>errorCount / wordCount * 100\<close>
  when the word count is positive and as 0 otherwise, and the quality score as
  \<open>max(0.0, 100.0 - 5.0 * errorsPer100Words)\<close>, where the division, the products and the
  difference are those of Python's floats. The score is never negative and it is 100
  when the word count is 0, whatever the number of errors.
\<close>

theorem compute_language_score_spec:
  "r_wc (compute_language_score U text allowed raw) = spec_word_count U text
   \<and> r_err_per_100 (compute_language_score U text allowed raw) =
       (if r_wc (compute_language_score U text allowed raw) > 0
        then fmul (fdiv (length (r_errors (compute_language_score U text allowed raw)))
                     (r_wc (compute_language_score U text allowed raw))) 100
        else 0)
   \<and> r_score (compute_language_score U text allowed raw) =
       max 0.0 (fsub 100.0 (fmul 5.0 (r_err_per_100 (compute_language_score U text allowed raw))))
   \<and> 0 \<le> r_score (compute_language_score U text allowed raw)
   \<and> (r_wc (compute_language_score U text allowed raw) = 0 \<longrightarrow>
        r_score (compute_language_score U text allowed raw) = 100.0)"
proof -
  have "r_wc (compute_language_score U text allowed raw) = length (re_findall (word_rx U) text)"
    by (simp add: compute_language_score_def Let_def)
  then have wc: "r_wc (compute_language_score U text allowed raw) = spec_word_count U text"
    by (simp only: word_count_spec)
  have z: "fsub 100 (fmul 5 0) = 100"
    by (simp add: fsub_def fmul_def rnd_0 rnd_100)
  show ?thesis
    unfolding wc [symmetric]
    by (simp add: compute_language_score_def Let_def ERROR_WEIGHT_def z)
qed

theorem compute_language_score_spec_witness:
  "r_wc (compute_language_score ascii_ucd (ustr ''?!'') {} [plain_match 0 1]) = 0
   \<and> length (r_errors (compute_language_score ascii_ucd (ustr ''?!'') {} [plain_match 0 1])) = 1
   \<and> r_score (compute_language_score ascii_ucd (ustr ''?!'') {} [plain_match 0 1]) = 100
   \<and> r_wc (compute_language_score ascii_ucd (ustr ''teh cat'') {} [plain_match 0 3]) = 2
   \<and> length (r_errors (compute_language_score ascii_ucd (ustr ''teh cat'') {} [plain_match 0 3])) = 1
   \<and> r_err_per_100 (compute_language_score ascii_ucd (ustr ''teh cat'') {} [plain_match 0 3]) = 50
   \<and> r_score (compute_language_score ascii_ucd (ustr ''teh cat'') {} [plain_match 0 3]) = 0"
proof -
  let ?A = "compute_language_score ascii_ucd (ustr ''?!'') {} [plain_match 0 1]"
  let ?B = "compute_language_score ascii_ucd (ustr ''teh cat'') {} [plain_match 0 3]"
  have a: "r_wc ?A = 0" "length (r_errors ?A) = 1"
    by (simp_all add: eval_defs)
  have b: "r_wc ?B = 2" "length (r_errors ?B) = 1"
    by (simp_all add: eval_defs)
  have "r_wc ?A = 0 \<longrightarrow> r_score ?A = 100"
    using compute_language_score_spec [of ascii_ucd "ustr ''?!''" "{}" "[plain_match 0 1]"]
    by auto
  then have sa: "r_score ?A = 100" using a by blast
  have "r_err_per_100 ?B =
       (if r_wc ?B > 0 then fmul (fdiv (length (r_errors ?B)) (r_wc ?B)) 100 else 0)"
    and sc: "r_score ?B = max 0 (fsub 100 (fmul 5 (r_err_per_100 ?B)))"
    using compute_language_score_spec [of ascii_ucd "ustr ''teh cat''" "{}" "[plain_match 0 3]"]
    by auto
  then have eb: "r_err_per_100 ?B = 50"
    unfolding b by (simp add: fdiv_def fmul_def rnd_exact_values)
  have sb: "r_score ?B = 0"
    unfolding sc eb by (simp add: fsub_def fmul_def rnd_exact_values)
  show ?thesis using a b sa eb sb by blast
qed

section \<open>Order of the issues\<close>

text \<open>
  Claim C3. For every list of matches, the issues that \<open>compute_language_score\<close> returns
  are sorted by offset in ascending order: the offset of the issue at \<open>i\<close> is at most the
  offset of the issue at \<open>i + 1\<close>, for every valid \<open>i\<close>. Retained matches with equal
  offsets keep the order they had before the sort.
\<close>

theorem issues_sorted_stable:
  "(\<forall>i. Suc i < length (r_errors (compute_language_score U text allowed raw)) \<longrightarrow>
      offset_of (r_errors (compute_language_score U text allowed raw) ! i)
      \<le> offset_of (r_errors (compute_language_score U text allowed raw) ! Suc i))
   \<and> (\<forall>k. filter (\<lambda>e. offset_of e = k) (r_errors (compute_language_score U text allowed raw))
          = filter (\<lambda>e. offset_of e = k) (collect_errors U text allowed raw))"
proof -
  let ?f = "\<lambda>x. getattr (m_offset (snd x)) 0"
  let ?c = "collect_errors U text allowed raw"
  have r: "r_errors (compute_language_score U text allowed raw) = sort_key ?f ?c"
    by (simp add: compute_language_score_def Let_def)
  have s: "sorted (map ?f (sort_key ?f ?c))" by (rule sorted_sort_key)
  have 1: "\<forall>i. Suc i < length (sort_key ?f ?c) \<longrightarrow> ?f (sort_key ?f ?c ! i) \<le> ?f (sort_key ?f ?c ! Suc i)"
  proof (intro allI impI)
    fix i assume a: "Suc i < length (sort_key ?f ?c)"
    then have "map ?f (sort_key ?f ?c) ! i \<le> map ?f (sort_key ?f ?c) ! Suc i"
      using s by (intro sorted_nth_mono) auto
    then show "?f (sort_key ?f ?c ! i) \<le> ?f (sort_key ?f ?c ! Suc i)" using a by simp
  qed
  have 2: "\<forall>k. filter (\<lambda>e. ?f e = k) (sort_key ?f ?c) = filter (\<lambda>e. ?f e = k) ?c"
    by (simp only: sort_key_stable) simp
  show ?thesis unfolding r offset_of_def using 1 2 by blast
qed

theorem issues_sorted_stable_witness:
  "Suc 0 < length (r_errors (compute_language_score ascii_ucd (ustr ''teh cat teh'') {}
       [plain_match 8 3, plain_match 0 3, plain_match 0 2]))
   \<and> r_errors (compute_language_score ascii_ucd (ustr ''teh cat teh'') {}
       [plain_match 8 3, plain_match 0 3, plain_match 0 2])
     = [(ustr ''teh'', plain_match 0 3), (ustr ''te'', plain_match 0 2), (ustr ''teh'', plain_match 8 3)]
   \<and> offset_of (r_errors (compute_language_score ascii_ucd (ustr ''teh cat teh'') {}
       [plain_match 8 3, plain_match 0 3, plain_match 0 2]) ! 0)
     \<le> offset_of (r_errors (compute_language_score ascii_ucd (ustr ''teh cat teh'') {}
       [plain_match 8 3, plain_match 0 3, plain_match 0 2]) ! Suc 0)"
  using issues_sorted_stable [of ascii_ucd "ustr ''teh cat teh''" "{}"
      "[plain_match 8 3, plain_match 0 3, plain_match 0 2]"]
  by (simp add: eval_defs offset_of_def)

section \<open>Rendering\<close>

lemma str_rfind_bounds: "- 1 \<le> str_rfind s c k \<and> str_rfind s c k < int (min k (length s))"
  by (induction k) auto

lemma find_from_bounds:
  "find_from xs c i = - 1 \<or> (int i \<le> find_from xs c i \<and> find_from xs c i < int (i + length xs))"
proof (induction xs arbitrary: i)
  case Nil
  show ?case by simp
next
  case (Cons x xs)
  show ?case using Cons [of "Suc i"] by auto
qed

lemma str_find_bounds:
  "str_find s c lo = - 1 \<or> (int lo \<le> str_find s c lo \<and> str_find s c lo < int (length s))"
proof (cases "lo \<le> length s")
  case True
  then show ?thesis using find_from_bounds [of "drop lo s" c lo] by (auto simp: str_find_def)
next
  case False
  then show ?thesis by (simp add: str_find_def)
qed

lemma line_start_bounds:
  "0 \<le> line_start_of text offset \<and> line_start_of text offset \<le> int (min offset (length text))"
  using str_rfind_bounds [of "text" LF offset] by (simp add: line_start_of_def)

lemma line_end_bounds:
  "line_start_of text offset \<le> line_end_of text offset
   \<and> line_end_of text offset \<le> int (length text)"
  using str_find_bounds [of "text" LF offset] line_start_bounds [of "text" offset]
  by (auto simp: line_end_of_def Let_def)

lemma slice_in_range:
  "0 \<le> a \<Longrightarrow> a \<le> b \<Longrightarrow> b \<le> int (length s) \<Longrightarrow> slice s a b = take (nat (b - a)) (drop (nat a) s)"
  by (simp add: slice_def Let_def)

text \<open>
  Claim C5, as amended. For every text and every match, also one whose offset or length
  runs past the end of its line or of the text, the bounds of the source line that
  \<open>pretty_print_errors\<close> computes satisfy \<open>0 \<le> line_start \<le> offset\<close> and
  \<open>line_start \<le> line_end \<le> len(text)\<close>, so that the line is a slice inside the text
  and nothing reads out of bounds. The caret line is \<open>offset - line_start\<close> spaces
  followed by \<open>max(1, length)\<close> carets; it is not clamped to the length of the line.
\<close>

theorem render_issue_bounds:
  "0 \<le> line_start_of text (getattr (m_offset m) 0)
   \<and> line_start_of text (getattr (m_offset m) 0) \<le> int (getattr (m_offset m) 0)
   \<and> line_start_of text (getattr (m_offset m) 0) \<le> line_end_of text (getattr (m_offset m) 0)
   \<and> line_end_of text (getattr (m_offset m) 0) \<le> int (length text)
   \<and> b_line_text (render_issue text m) =
       rstrip_chars [CR, LF]
         (take (nat (line_end_of text (getattr (m_offset m) 0)
                     - line_start_of text (getattr (m_offset m) 0)))
            (drop (nat (line_start_of text (getattr (m_offset m) 0))) text))
   \<and> b_caret (render_issue text m) =
       replicate (getattr (m_offset m) 0 - nat (line_start_of text (getattr (m_offset m) 0))) SPACE
       @ replicate (max 1 (getattr (m_errorLength m) 1)) CARET"
proof -
  let ?o = "getattr (m_offset m) 0"
  have a: "0 \<le> line_start_of text ?o" "line_start_of text ?o \<le> int ?o"
    using line_start_bounds [of "text" ?o] by auto
  have b: "line_start_of text ?o \<le> line_end_of text ?o" "line_end_of text ?o \<le> int (length text)"
    using line_end_bounds [of "text" ?o] by auto
  have c: "b_line_text (render_issue text m) =
       rstrip_chars [CR, LF] (slice text (line_start_of text ?o) (line_end_of text ?o))"
    by (simp add: render_issue_def Let_def split: prod.splits)
  have d: "b_caret (render_issue text m) =
       replicate (nat (int ?o - line_start_of text ?o)) SPACE
       @ replicate (max 1 (let l = getattr (m_errorLength m) 1 in if l = 0 then 1 else l)) CARET"
    by (simp add: render_issue_def Let_def split: prod.splits)
  have e: "nat (int ?o - line_start_of text ?o) = ?o - nat (line_start_of text ?o)"
    using a by linarith
  have f: "max 1 (let l = getattr (m_errorLength m) 1 in if l = 0 then 1 else l)
       = max 1 (getattr (m_errorLength m) 1)"
    by (simp add: Let_def)
  show ?thesis
    using a b c d unfolding e f by (simp add: slice_in_range)
qed


theorem render_issue_bounds_witness:
  "b_line_text (render_issue (ustr ''ab'') (plain_match 0 5)) = ustr ''ab''
   \<and> b_caret (render_issue (ustr ''ab'') (plain_match 0 5)) = replicate 5 CARET
   \<and> line_end_of (ustr ''ab'') 0 \<le> 2"
  using render_issue_bounds [of "ustr ''ab''" "plain_match 0 5"]
  by (simp add: render_defs)


text \<open>The caret line of a match of length 5 at the start of the two-character text
  \<open>ab\<close> has five carets: it is longer than the line.\<close>

theorem caret_not_clamped_counterexample:
  "\<not> length (b_caret (render_issue (ustr ''ab'') (plain_match 0 5)))
     \<le> length (b_line_text (render_issue (ustr ''ab'') (plain_match 0 5)))"
  by (simp add: render_defs)

section \<open>Allow-list\<close>

lemma collect_errors_set:
  "(s, m) \<in> set (collect_errors U text allowed raw) \<Longrightarrow>
     s = snippet_of U text m \<and> lower U (snippet_of U text m) \<notin> allowed \<and> m \<in> set raw"
  by (induction raw) (auto simp: Let_def split: if_splits)

text \<open>
  Claim C2, as amended. For every text, allow-list and match: if the snippet of the
  match, with leading and trailing whitespace stripped as the filter extracts it, matches
  a lower-cased entry of the allow-list without regard to case, then the match is not among
  the issues returned, whatever its rule id.
\<close>

theorem allow_list_suppression:
  assumes "e \<in> allowed" and "lower U e = e"
    and "lower U (snippet_of U text m) = lower U e"
  shows "m \<notin> snd ` set (r_errors (compute_language_score U text allowed raw))"
proof
  assume "m \<in> snd ` set (r_errors (compute_language_score U text allowed raw))"
  then obtain s where "(s, m) \<in> set (collect_errors U text allowed raw)"
    by (auto simp: compute_language_score_def Let_def)
  then have "lower U (snippet_of U text m) \<notin> allowed" by (simp add: collect_errors_set)
  with assms show False by simp
qed

theorem allow_list_suppression_witness:
  "ustr ''foo'' \<in> {ustr ''foo''}
   \<and> lower ascii_ucd (ustr ''foo'') = ustr ''foo''
   \<and> snippet_of ascii_ucd (ustr '' Foo bar'') (plain_match 0 4) = ustr ''Foo''
   \<and> plain_match 0 4 \<notin> snd ` set (r_errors
        (compute_language_score ascii_ucd (ustr '' Foo bar'') {ustr ''foo''} [plain_match 0 4]))"
proof -
  have 1: "ustr ''foo'' \<in> {ustr ''foo''}" by simp
  have 2: "lower ascii_ucd (ustr ''foo'') = ustr ''foo''" by (simp add: eval_defs)
  have 3: "snippet_of ascii_ucd (ustr '' Foo bar'') (plain_match 0 4) = ustr ''Foo''"
    by (simp add: eval_defs)
  have 4: "lower ascii_ucd (snippet_of ascii_ucd (ustr '' Foo bar'') (plain_match 0 4))
      = lower ascii_ucd (ustr ''foo'')"
    unfolding 3 by (simp add: eval_defs)
  show ?thesis using 1 2 3 allow_list_suppression [OF 1 2 4] by blast
qed

text \<open>The snippet \<open>text[0:4]\<close> of the text \<open>" foo bar"\<close> is \<open>" foo"\<close>, which is an entry of
  the allow-list; the filter strips it to \<open>"foo"\<close>, which is not, and keeps the match.\<close>

theorem allow_list_unstripped_counterexample:
  "spec_snippet (ustr '' foo bar'') (plain_match 0 4) = ustr '' foo''
   \<and> lower ascii_ucd (spec_snippet (ustr '' foo bar'') (plain_match 0 4)) \<in> {ustr '' foo''}
   \<and> r_errors (compute_language_score ascii_ucd (ustr '' foo bar'') {ustr '' foo''}
        [plain_match 0 4]) = [(ustr ''foo'', plain_match 0 4)]"
  by (simp add: eval_defs spec_snippet_def)

section \<open>Hyphens at line breaks\<close>

lemma translate_ascii: "is_ascii s \<Longrightarrow> translate LIG_MAP s = s"
  by (induction s) (auto simp: translate_def is_ascii_def LIG_MAP_def)

lemma remove_char_absent: "c \<notin> set s \<Longrightarrow> remove_char c s = s"
  by (induction s) (auto simp: remove_char_def)

lemma normalize_ascii:
  assumes "is_ascii s"
  shows "normalize_text U s = re_sub (unwrap_rx U) unwrap_repl s"
proof -
  have "\<forall>c\<in>set s. c < 128" using assms by (simp add: is_ascii_def list_all_iff)
  then have "0xAD \<notin> set s" "0x200B \<notin> set s" "0xFEFF \<notin> set s" by auto
  then show ?thesis
    using assms
    by (simp add: normalize_text_def nfkc_def translate_ascii remove_char_absent
        UNWRAP_LINEBREAK_HYPHENS_def)
qed

lemma isword_not_space: "c < 128 \<Longrightarrow> isword U c \<Longrightarrow> \<not> isspace U c"
  by (auto simp: isword_def isspace_def)

lemma rmatch_ws_nl:
  assumes "list_all (\<lambda>c. c < 128 \<and> isspace U c) ws" and "d < 128" and "isword U d"
  shows "rmatch [Many 0 (isspace U), One (\<lambda>c. c = LF), One (isword U)] (ws @ LF # d # rest)
         = Some (length ws + 2)"
  using assms(1)
proof (induction ws)
  case Nil
  have "\<not> isspace U d" using assms by (simp add: isword_not_space)
  moreover have "d \<noteq> LF" using assms by (auto simp: isword_def LF_def)
  moreover have "isspace U LF" by (simp add: isspace_def LF_def)
  ultimately show ?case using assms(3) by simp
next
  case (Cons w ws)
  then show ?case by simp
qed

lemma re_sub_nil: "rmatch r [] = None \<Longrightarrow> re_sub r repl [] = []"
  by (simp add: re_sub.simps)

lemma re_sub_skip: "rmatch r (c # cs) = None \<Longrightarrow> re_sub r repl (c # cs) = c # re_sub r repl cs"
  by (simp add: re_sub.simps)

lemma re_sub_hit:
  "rmatch r s = Some n \<Longrightarrow> n \<noteq> 0 \<Longrightarrow> re_sub r repl s = repl (take n s) @ re_sub r repl (drop n s)"
  by (simp add: re_sub.simps)

lemma unwrap_joined:
  assumes "c < 128" "isword U c" "d < 128" "isword U d"
    and "list_all (\<lambda>c. c < 128 \<and> isspace U c) ws"
  shows "normalize_text U ([c, HYPHEN] @ ws @ [LF, d]) = [c, HYPHEN, d]"
proof -
  let ?s = "[c, HYPHEN] @ ws @ [LF, d]"
  have asc: "is_ascii ?s"
    using assms by (auto simp: is_ascii_def HYPHEN_def LF_def list_all_iff)
  have m: "rmatch (unwrap_rx U) ?s = Some (length ws + 4)"
    using assms rmatch_ws_nl [OF assms(5) assms(3) assms(4), of "[]"]
    by (simp add: unwrap_rx_def lit_def HYPHEN_def)
  have t: "take (length ws + 4) ?s = ?s" by simp
  have d: "drop (length ws + 4) ?s = []" by simp
  have e: "rmatch (unwrap_rx U) [] = None" by (simp add: unwrap_rx_def)
  have "re_sub (unwrap_rx U) unwrap_repl ?s = unwrap_repl ?s @ re_sub (unwrap_rx U) unwrap_repl []"
    using re_sub_hit [OF m, of unwrap_repl] unfolding t d by simp
  also have "\<dots> = [c, HYPHEN, d]" by (simp add: re_sub_nil [OF e] unwrap_repl_def)
  finally show ?thesis using normalize_ascii [OF asc, of U] by simp
qed

lemma unwrap_untouched:
  assumes "c < 128" "\<not> isword U c" "d < 128"
  shows "normalize_text U [c, HYPHEN, LF, d] = [c, HYPHEN, LF, d]"
proof -
  have asc: "is_ascii [c, HYPHEN, LF, d]"
    using assms by (auto simp: is_ascii_def HYPHEN_def LF_def)
  have m0: "rmatch (unwrap_rx U) [c, HYPHEN, LF, d] = None"
    using assms(2) by (simp add: unwrap_rx_def)
  have m1: "rmatch (unwrap_rx U) [HYPHEN, LF, d] = None"
    by (simp add: unwrap_rx_def isword_def HYPHEN_def)
  have m2: "rmatch (unwrap_rx U) [LF, d] = None"
    by (simp add: unwrap_rx_def isword_def LF_def)
  have m3: "rmatch (unwrap_rx U) [d] = None"
    by (simp add: unwrap_rx_def lit_def)
  have m4: "rmatch (unwrap_rx U) [] = None"
    by (simp add: unwrap_rx_def)
  have "re_sub (unwrap_rx U) unwrap_repl [c, HYPHEN, LF, d] = [c, HYPHEN, LF, d]"
    by (simp add: re_sub_skip m0 m1 m2 m3 re_sub_nil m4)
  then show ?thesis using normalize_ascii [OF asc, of U] by simp
qed

text \<open>
  Claim C7. The hyphen-unwrap step of \<open>normalize_text\<close> joins a word that is hyphenated
  across a line break: a word character, a hyphen, any whitespace, a newline and a word
  character become the word character, the hyphen and the word character, so that
  \<open>fast-\<close>, newline, \<open>evolving\<close> becomes \<open>fast-evolving\<close>. Where the character before the
  hyphen is not a word character, as in \<open>end of sentence -\<close>, newline, \<open>Next\<close>, the text
  is unchanged. The characters \<open>c\<close> and \<open>d\<close> and the whitespace are ASCII, where the
  earlier steps of the normalizer change nothing.
\<close>

theorem hyphen_unwrap:
  "normalize_text U (ustr ''fast-'' @ [LF] @ ustr ''evolving'') = ustr ''fast-evolving''
   \<and> normalize_text U (ustr ''end of sentence -'' @ [LF] @ ustr ''Next'')
       = ustr ''end of sentence -'' @ [LF] @ ustr ''Next''
   \<and> (c < 128 \<and> isword U c \<and> d < 128 \<and> isword U d
        \<and> list_all (\<lambda>c. c < 128 \<and> isspace U c) ws
      \<longrightarrow> normalize_text U ([c, HYPHEN] @ ws @ [LF, d]) = [c, HYPHEN, d])
   \<and> (c < 128 \<and> \<not> isword U c \<and> d < 128
      \<longrightarrow> normalize_text U [c, HYPHEN, LF, d] = [c, HYPHEN, LF, d])"
proof -
  have 1: "normalize_text U (ustr ''fast-'' @ [LF] @ ustr ''evolving'') = ustr ''fast-evolving''"
    by (simp add: norm_defs)
  have 2: "normalize_text U (ustr ''end of sentence -'' @ [LF] @ ustr ''Next'')
       = ustr ''end of sentence -'' @ [LF] @ ustr ''Next''"
    by (simp add: norm_defs)
  show ?thesis using 1 2 unwrap_joined [of c U d ws] unwrap_untouched [of c U d] by blast
qed

theorem hyphen_unwrap_witness:
  "(97 :: nat) < 128 \<and> isword ascii_ucd 97 \<and> (98 :: nat) < 128 \<and> isword ascii_ucd 98
   \<and> list_all (\<lambda>c. c < 128 \<and> isspace ascii_ucd c) [SPACE]
   \<and> normalize_text ascii_ucd ([97, HYPHEN] @ [SPACE] @ [LF, 98]) = [97, HYPHEN, 98]
   \<and> (33 :: nat) < 128 \<and> \<not> isword ascii_ucd 33
   \<and> normalize_text ascii_ucd [33, HYPHEN, LF, 98] = [33, HYPHEN, LF, 98]"
proof -
  have a: "(97 :: nat) < 128 \<and> isword ascii_ucd 97 \<and> (98 :: nat) < 128 \<and> isword ascii_ucd 98
     \<and> list_all (\<lambda>c. c < 128 \<and> isspace ascii_ucd c) [SPACE]"
    by (simp add: isword_def isspace_def SPACE_def)
  have b: "(33 :: nat) < 128 \<and> \<not> isword ascii_ucd 33 \<and> (98 :: nat) < 128"
    by (simp add: isword_def)
  show ?thesis
    using a b hyphen_unwrap [of ascii_ucd 97 98 "[SPACE]"] hyphen_unwrap [of ascii_ucd 33 98 "[]"]
    by blast
qed

section \<open>Normalizing twice\<close>

lemma rmatch_min_len: "rmatch r s = Some n \<Longrightarrow> min_len r \<le> n"
proof (induction r s arbitrary: n rule: rmatch.induct)
  case (7 k p r c cs)
  then show ?case
    by (fastforce simp: min_len_def split: if_splits option.splits)
qed (fastforce simp: min_len_def split: if_splits option.splits)+

lemma re_sub_no_match: "\<not> re_search r s \<Longrightarrow> re_sub r repl s = s"
  by (induction s) (simp_all add: re_sub_nil re_sub_skip)

lemma re_sub_shrinks:
  assumes H: "\<And>n s. rmatch r s = Some n \<Longrightarrow> length (repl (take n s)) < n"
  shows "length (re_sub r repl s) \<le> length s
         \<and> (re_search r s \<longrightarrow> length (re_sub r repl s) < length s)"
proof (induction s rule: length_induct)
  case (1 s)
  show ?case
  proof (cases "rmatch r s")
    case None
    show ?thesis
    proof (cases s)
      case Nil
      then show ?thesis using None by (simp add: re_sub_nil)
    next
      case (Cons c cs)
      then show ?thesis using None 1 by (simp add: re_sub_skip)
    qed
  next
    case (Some n)
    have l: "length (repl (take n s)) < n" using H Some by blast
    then have n0: "n \<noteq> 0" by simp
    have le: "n \<le> length s" using Some by (rule rmatch_le)
    have "length (drop n s) < length s" using n0 le by simp
    then have "length (re_sub r repl (drop n s)) \<le> length (drop n s)" using 1 by blast
    then have "length (re_sub r repl s) < length s"
      using l le by (simp add: re_sub_hit [OF Some n0])
    then show ?thesis by simp
  qed
qed

lemma unwrap_shrinks:
  "rmatch (unwrap_rx U) s = Some n \<Longrightarrow> length (unwrap_repl (take n s)) < n"
  using rmatch_min_len [of "unwrap_rx U" s n]
  by (simp add: unwrap_rx_def lit_def min_len_def unwrap_repl_def)

lemma unwrap_fixpoint:
  "re_sub (unwrap_rx U) unwrap_repl s = s \<longleftrightarrow> \<not> re_search (unwrap_rx U) s"
proof
  assume "re_sub (unwrap_rx U) unwrap_repl s = s"
  then show "\<not> re_search (unwrap_rx U) s"
    using re_sub_shrinks [of "unwrap_rx U" unwrap_repl s, OF unwrap_shrinks] by auto
next
  assume "\<not> re_search (unwrap_rx U) s"
  then show "re_sub (unwrap_rx U) unwrap_repl s = s" by (rule re_sub_no_match)
qed

lemma residue_simps: "\<not> residue HYPHEN" "\<not> residue 102" "\<not> residue 105" "\<not> residue 108"
  by (simp_all add: residue_def LIG_MAP_def HYPHEN_def)

lemma translate_cases:
  "c \<in> set (translate tbl s) \<Longrightarrow>
     (c \<in> set s \<and> map_of tbl c = None) \<or> (\<exists>k t. map_of tbl k = Some t \<and> c \<in> set (ustr t))"
  by (induction s) (auto simp: translate_def split: option.splits)

lemma LIG_MAP_values: "map_of LIG_MAP k = Some t \<Longrightarrow> set (ustr t) \<subseteq> {102, 105, 108}"
  by (auto simp: LIG_MAP_def ustr_def split: if_splits)

lemma LIG_MAP_letters: "map_of LIG_MAP 102 = None" "map_of LIG_MAP 105 = None" "map_of LIG_MAP 108 = None"
  by (simp_all add: LIG_MAP_def)

lemma translate_no_key: "c \<in> set (translate LIG_MAP s) \<Longrightarrow> map_of LIG_MAP c = None"
  using translate_cases [of c LIG_MAP s] LIG_MAP_values LIG_MAP_letters by blast

lemma cleaned_no_residue:
  "c \<in> set (remove_char 0xFEFF (remove_char 0x200B (remove_char 0xAD (translate LIG_MAP s))))
   \<Longrightarrow> \<not> residue c"
  using translate_no_key [of c s] by (auto simp: remove_char_def residue_def)

lemma unwrap_set:
  "set (re_sub (unwrap_rx U) unwrap_repl s) \<subseteq> insert HYPHEN (set s)"
proof (induction s rule: length_induct)
  case (1 s)
  show ?case
  proof (cases "rmatch (unwrap_rx U) s")
    case None
    show ?thesis
    proof (cases s)
      case Nil
      then show ?thesis using None by (simp add: re_sub_nil)
    next
      case (Cons c cs)
      then show ?thesis using None 1 by (auto simp: re_sub_skip)
    qed
  next
    case (Some n)
    have n4: "4 \<le> n"
      using rmatch_min_len [OF Some] by (simp add: unwrap_rx_def lit_def min_len_def)
    then have n0: "n \<noteq> 0" by simp
    have le: "n \<le> length s" using Some by (rule rmatch_le)
    have ne: "take n s \<noteq> []" using n0 le by auto
    have "hd (take n s) \<in> set (take n s)" "last (take n s) \<in> set (take n s)"
      using ne by (rule hd_in_set, rule last_in_set)
    then have h: "hd (take n s) \<in> set s" "last (take n s) \<in> set s"
      by (auto dest: in_set_takeD)
    have "length (drop n s) < length s" using n0 le by simp
    then have "set (re_sub (unwrap_rx U) unwrap_repl (drop n s)) \<subseteq> insert HYPHEN (set (drop n s))"
      using 1 by blast
    then have "set (re_sub (unwrap_rx U) unwrap_repl (drop n s)) \<subseteq> insert HYPHEN (set s)"
      by (auto dest: in_set_dropD)
    moreover have "unwrap_repl (take n s) = [hd (take n s), HYPHEN, last (take n s)]"
      by (simp add: unwrap_repl_def)
    ultimately show ?thesis using h by (auto simp: re_sub_hit [OF Some n0])
  qed
qed

lemma normalize_no_residue: "c \<in> set (normalize_text U x) \<Longrightarrow> \<not> residue c"
proof -
  assume a: "c \<in> set (normalize_text U x)"
  let ?t = "remove_char 0xFEFF (remove_char 0x200B (remove_char 0xAD (translate LIG_MAP (nfkc U x))))"
  have "normalize_text U x = re_sub (unwrap_rx U) unwrap_repl ?t"
    by (simp add: normalize_text_def UNWRAP_LINEBREAK_HYPHENS_def Let_def)
  then have "c \<in> insert HYPHEN (set ?t)" using a unwrap_set [of U ?t] by auto
  then show ?thesis using cleaned_no_residue [of c "nfkc U x"] residue_simps by auto
qed

lemma translate_id: "(\<And>c. c \<in> set s \<Longrightarrow> map_of LIG_MAP c = None) \<Longrightarrow> translate LIG_MAP s = s"
  by (induction s) (auto simp: translate_def)

lemma normalize_again:
  assumes "nfkc U (normalize_text U x) = normalize_text U x"
  shows "normalize_text U (normalize_text U x)
         = re_sub (unwrap_rx U) unwrap_repl (normalize_text U x)"
proof -
  let ?y = "normalize_text U x"
  have r: "\<And>c. c \<in> set ?y \<Longrightarrow> \<not> residue c" by (rule normalize_no_residue)
  have t: "translate LIG_MAP ?y = ?y"
    using r by (intro translate_id) (auto simp: residue_def)
  have "0xAD \<notin> set ?y" "0x200B \<notin> set ?y" "0xFEFF \<notin> set ?y"
    using r by (auto simp: residue_def)
  then have "remove_char 0xFEFF (remove_char 0x200B (remove_char 0xAD ?y)) = ?y"
    by (simp add: remove_char_absent)
  then show ?thesis
    using assms t
    by (simp add: normalize_text_def [of U ?y] UNWRAP_LINEBREAK_HYPHENS_def Let_def)
qed

text \<open>
  Claim C4, as amended. For every input \<open>x\<close> whose normalized text is unchanged by NFKC
  (as every ASCII text is), \<open>normalize(normalize(x)) = normalize(x)\<close> holds if and only if
  \<open>normalize(x)\<close> contains no occurrence of the pattern word character, hyphen,
  whitespace, newline, word character. The substitution is one pass over matches that do
  not overlap, so its output can contain the pattern again.
\<close>

theorem normalize_twice:
  assumes "nfkc U (normalize_text U x) = normalize_text U x"
  shows "normalize_text U (normalize_text U x) = normalize_text U x
         \<longleftrightarrow> \<not> re_search (unwrap_rx U) (normalize_text U x)"
  unfolding normalize_again [OF assms] by (rule unwrap_fixpoint)

theorem normalize_twice_witness:
  "nfkc ascii_ucd (normalize_text ascii_ucd (ustr ''a-'' @ [LF] @ ustr ''b''))
     = normalize_text ascii_ucd (ustr ''a-'' @ [LF] @ ustr ''b'')
   \<and> \<not> re_search (unwrap_rx ascii_ucd) (normalize_text ascii_ucd (ustr ''a-'' @ [LF] @ ustr ''b''))
   \<and> normalize_text ascii_ucd (normalize_text ascii_ucd (ustr ''a-'' @ [LF] @ ustr ''b''))
     = normalize_text ascii_ucd (ustr ''a-'' @ [LF] @ ustr ''b'')"
proof -
  let ?x = "ustr ''a-'' @ [LF] @ ustr ''b''"
  have e: "normalize_text ascii_ucd ?x = ustr ''a-b''"
    by (simp add: norm_defs)
  have h: "nfkc ascii_ucd (normalize_text ascii_ucd ?x) = normalize_text ascii_ucd ?x"
    unfolding e by (simp add: nfkc_def is_ascii_def ustr_def)
  have n: "\<not> re_search (unwrap_rx ascii_ucd) (normalize_text ascii_ucd ?x)"
    unfolding e by (simp add: ustr_def unwrap_rx_def lit_def isword_def)
  show ?thesis using h n normalize_twice [OF h] by blast
qed

text \<open>The text \<open>a-\<close>, newline, \<open>b-\<close>, newline, \<open>c\<close> is normalized to \<open>a-b-\<close>, newline,
  \<open>c\<close>: the match of the first break has consumed the \<open>b\<close> that the second needs. The
  second application joins the rest.\<close>

theorem normalize_not_idempotent_counterexample:
  "normalize_text ascii_ucd (normalize_text ascii_ucd broken_twice)
   \<noteq> normalize_text ascii_ucd broken_twice"
proof -
  have 1: "normalize_text ascii_ucd broken_twice = ustr ''a-b-'' @ [LF] @ ustr ''c''"
    by (simp add: broken_twice_def norm_defs)
  have 2: "normalize_text ascii_ucd (ustr ''a-b-'' @ [LF] @ ustr ''c'') = ustr ''a-b-c''"
    by (simp add: norm_defs)
  show ?thesis unfolding 1 2 by (simp add: ustr_def)
qed

end
